theory Spec2Isabelle
  imports Main
begin

section \<open>Nodes, the object store and the two list classes\<close>

text \<open>
  Both modules define the same class \<^verbatim>\<open>Node\<close>: a value and two references,
  \<^verbatim>\<open>next\<close> and \<^verbatim>\<open>prev\<close>, each a node or \<^verbatim>\<open>None\<close>. Nodes are
  mutable objects that the list and their neighbours share, so they live in an explicit
  store. The store is the list of all node objects created so far and a reference is the
  position of the object in it; \<^verbatim>\<open>Node(value)\<close> adds an object at the end.
  Objects that are no longer referenced stay in the store: nothing can reach them, which
  is all a Python program can observe of their reclamation.
\<close>

type_synonym ref = "nat option"

record node =
  node_value :: int
  node_next :: ref
  node_prev :: ref

definition Node :: "int \<Rightarrow> node" where
  "Node v = \<lparr>node_value = v, node_next = None, node_prev = None\<rparr>"

text \<open>
  \<^verbatim>\<open>DoublyLinkedList\<close> of \<^verbatim>\<open>doubly_linked_list.py\<close>: the attributes
  \<^verbatim>\<open>head\<close>, \<^verbatim>\<open>tail\<close> and \<^verbatim>\<open>length\<close>, together with the store
  of the nodes.
\<close>

record dll =
  heap :: "node list"
  head :: ref
  tail :: ref
  dll_length :: int

text \<open>The exceptions the methods can raise: the failed \<^verbatim>\<open>assert\<close> and the
  \<^verbatim>\<open>IndexError\<close> of \<^verbatim>\<open>get\<close> with its message.\<close>

datatype error = AssertionError | IndexError string

text \<open>Assignment to the attribute of a node object.\<close>

definition set_next :: "nat \<Rightarrow> ref \<Rightarrow> node list \<Rightarrow> node list" where
  "set_next a r h = h[a := (h ! a)\<lparr>node_next := r\<rparr>]"

definition set_prev :: "nat \<Rightarrow> ref \<Rightarrow> node list \<Rightarrow> node list" where
  "set_prev a r h = h[a := (h ! a)\<lparr>node_prev := r\<rparr>]"

text \<open>\<^verbatim>\<open>__init__\<close>\<close>

definition init :: dll where
  "init = \<lparr>heap = [], head = None, tail = None, dll_length = 0\<rparr>"

subsection \<open>The length-tracked list\<close>

text \<open>
  \<^verbatim>\<open>append_left\<close>: a node object is truthy, so \<^verbatim>\<open>not self.head\<close> holds
  exactly when \<^verbatim>\<open>head\<close> is \<^verbatim>\<open>None\<close>. The method cannot raise and
  returns \<^verbatim>\<open>None\<close>; the model returns the state.
\<close>

definition append_left :: "int \<Rightarrow> dll \<Rightarrow> dll" where
  "append_left v s =
    (let new_node = length (heap s);
         s1 = s\<lparr>heap := heap s @ [Node v]\<rparr>;
         s2 = s1\<lparr>dll_length := dll_length s1 + 1\<rparr>
     in case head s2 of
          None \<Rightarrow> s2\<lparr>tail := Some new_node, head := Some new_node\<rparr>
        | Some h \<Rightarrow>
            (let s3 = s2\<lparr>heap := set_next new_node (head s2) (heap s2)\<rparr>;
                 s4 = s3\<lparr>heap := set_prev h (Some new_node) (heap s3)\<rparr>
             in s4\<lparr>head := Some new_node\<rparr>))"

definition append_right :: "int \<Rightarrow> dll \<Rightarrow> dll" where
  "append_right v s =
    (let new_node = length (heap s);
         s1 = s\<lparr>heap := heap s @ [Node v]\<rparr>;
         s2 = s1\<lparr>dll_length := dll_length s1 + 1\<rparr>
     in case tail s2 of
          None \<Rightarrow> s2\<lparr>tail := Some new_node, head := Some new_node\<rparr>
        | Some t \<Rightarrow>
            (let s3 = s2\<lparr>heap := set_prev new_node (tail s2) (heap s2)\<rparr>;
                 s4 = s3\<lparr>heap := set_next t (Some new_node) (heap s3)\<rparr>
             in s4\<lparr>tail := Some new_node\<rparr>))"

text \<open>
  \<^verbatim>\<open>pop_left\<close> and \<^verbatim>\<open>pop_right\<close> return the value or \<^verbatim>\<open>None\<close>,
  or raise at the \<^verbatim>\<open>assert\<close> (assertions are taken as enabled); the state is
  returned as it is at that moment.
  \<^verbatim>\<open>Node\<close> defines no \<^verbatim>\<open>__eq__\<close>, so \<^verbatim>\<open>self.head == self.tail\<close>
  compares the references.
\<close>

definition pop_left :: "dll \<Rightarrow> (error + int option) \<times> dll" where
  "pop_left s =
    (case head s of
       None \<Rightarrow> (Inr None, s)
     | Some h \<Rightarrow>
        (let removed_value = node_value (heap s ! h) in
         if head s = tail s
         then (Inr (Some removed_value), s\<lparr>head := None, tail := None, dll_length := 0\<rparr>)
         else
          (let s1 = s\<lparr>head := node_next (heap s ! h)\<rparr> in
           case head s1 of
             None \<Rightarrow> (Inl AssertionError, s1)
           | Some h' \<Rightarrow>
              (let s2 = s1\<lparr>heap := set_prev h' None (heap s1)\<rparr>;
                   s3 = s2\<lparr>dll_length := dll_length s2 - 1\<rparr>
               in (Inr (Some removed_value), s3)))))"

definition pop_right :: "dll \<Rightarrow> (error + int option) \<times> dll" where
  "pop_right s =
    (case tail s of
       None \<Rightarrow> (Inr None, s)
     | Some t \<Rightarrow>
        (let removed_value = node_value (heap s ! t) in
         if head s = tail s
         then (Inr (Some removed_value), s\<lparr>head := None, tail := None, dll_length := 0\<rparr>)
         else
          (let s1 = s\<lparr>tail := node_prev (heap s ! t)\<rparr> in
           case tail s1 of
             None \<Rightarrow> (Inl AssertionError, s1)
           | Some t' \<Rightarrow>
              (let s2 = s1\<lparr>heap := set_next t' None (heap s1)\<rparr>;
                   s3 = s2\<lparr>dll_length := dll_length s2 - 1\<rparr>
               in (Inr (Some removed_value), s3)))))"

text \<open>
  The two loops of \<^verbatim>\<open>get\<close>: \<^verbatim>\<open>for _ in range(n): assert current;
  current = current.next\<close> and the same with \<^verbatim>\<open>prev\<close>.
\<close>

fun walk_next :: "node list \<Rightarrow> ref \<Rightarrow> nat \<Rightarrow> error + ref" where
  "walk_next h current 0 = Inr current"
| "walk_next h current (Suc n) =
    (case current of
       None \<Rightarrow> Inl AssertionError
     | Some a \<Rightarrow> walk_next h (node_next (h ! a)) n)"

fun walk_prev :: "node list \<Rightarrow> ref \<Rightarrow> nat \<Rightarrow> error + ref" where
  "walk_prev h current 0 = Inr current"
| "walk_prev h current (Suc n) =
    (case current of
       None \<Rightarrow> Inl AssertionError
     | Some a \<Rightarrow> walk_prev h (node_prev (h ! a)) n)"

text \<open>The \<^verbatim>\<open>assert current; return current.value\<close> that ends each branch.\<close>

definition value_at :: "node list \<Rightarrow> error + ref \<Rightarrow> error + int" where
  "value_at h w =
    (case w of
       Inl e \<Rightarrow> Inl e
     | Inr None \<Rightarrow> Inl AssertionError
     | Inr (Some a) \<Rightarrow> Inr (node_value (h ! a)))"

text \<open>
  \<^verbatim>\<open>get\<close>. \<^verbatim>\<open>range\<close> of a negative number is empty, as \<open>nat\<close> of
  a negative integer is \<open>0\<close>; \<^verbatim>\<open>//\<close> rounds down, as \<open>div\<close> does. The method
  assigns to nothing; the state is returned to say so.
\<close>

definition get :: "int \<Rightarrow> dll \<Rightarrow> (error + int) \<times> dll" where
  "get index s =
    (if index < 0 \<or> index \<ge> dll_length s
     then (Inl (IndexError ''Index out of range''), s)
     else if index < dll_length s div 2
     then (value_at (heap s) (walk_next (heap s) (head s) (nat index)), s)
     else (value_at (heap s) (walk_prev (heap s) (tail s) (nat (dll_length s - index - 1))), s))"

text \<open>
  \<^verbatim>\<open>__iter__\<close>, run to its end as \<^verbatim>\<open>list(dll)\<close> does. The
  \<^verbatim>\<open>while current\<close> loop has no bound, so the function is partial:
  \<open>None\<close> is a traversal that never ends.
\<close>

partial_function (option) iter_from :: "node list \<Rightarrow> ref \<Rightarrow> int list option" where
  "iter_from h current =
    (case current of
       None \<Rightarrow> Some []
     | Some a \<Rightarrow>
         Option.bind (iter_from h (node_next (h ! a)))
           (\<lambda>vs. Some (node_value (h ! a) # vs)))"

declare iter_from.simps [code]

definition iter :: "dll \<Rightarrow> (int list \<times> dll) option" where
  "iter s = map_option (\<lambda>vs. (vs, s)) (iter_from (heap s) (head s))"

text \<open>\<^verbatim>\<open>__len__\<close>\<close>

definition len :: "dll \<Rightarrow> int" where
  "len s = dll_length s"

subsection \<open>The untracked list\<close>

text \<open>
  \<^verbatim>\<open>DoublyLinkedList\<close> of \<^verbatim>\<open>linked_list.py\<close>: the same class with no
  \<^verbatim>\<open>length\<close> attribute, no \<^verbatim>\<open>__len__\<close> and no \<^verbatim>\<open>get\<close>.
  Its \<^verbatim>\<open>Node\<close> class is the one above, line for line.
\<close>

record ll =
  ll_heap :: "node list"
  ll_head :: ref
  ll_tail :: ref

definition ll_init :: ll where
  "ll_init = \<lparr>ll_heap = [], ll_head = None, ll_tail = None\<rparr>"

definition ll_append_left :: "int \<Rightarrow> ll \<Rightarrow> ll" where
  "ll_append_left v s =
    (let new_node = length (ll_heap s);
         s1 = s\<lparr>ll_heap := ll_heap s @ [Node v]\<rparr>
     in case ll_head s1 of
          None \<Rightarrow> s1\<lparr>ll_tail := Some new_node, ll_head := Some new_node\<rparr>
        | Some h \<Rightarrow>
            (let s2 = s1\<lparr>ll_heap := set_next new_node (ll_head s1) (ll_heap s1)\<rparr>;
                 s3 = s2\<lparr>ll_heap := set_prev h (Some new_node) (ll_heap s2)\<rparr>
             in s3\<lparr>ll_head := Some new_node\<rparr>))"

definition ll_append_right :: "int \<Rightarrow> ll \<Rightarrow> ll" where
  "ll_append_right v s =
    (let new_node = length (ll_heap s);
         s1 = s\<lparr>ll_heap := ll_heap s @ [Node v]\<rparr>
     in case ll_tail s1 of
          None \<Rightarrow> s1\<lparr>ll_tail := Some new_node, ll_head := Some new_node\<rparr>
        | Some t \<Rightarrow>
            (let s2 = s1\<lparr>ll_heap := set_prev new_node (ll_tail s1) (ll_heap s1)\<rparr>;
                 s3 = s2\<lparr>ll_heap := set_next t (Some new_node) (ll_heap s2)\<rparr>
             in s3\<lparr>ll_tail := Some new_node\<rparr>))"

definition ll_pop_left :: "ll \<Rightarrow> (error + int option) \<times> ll" where
  "ll_pop_left s =
    (case ll_head s of
       None \<Rightarrow> (Inr None, s)
     | Some h \<Rightarrow>
        (let removed_value = node_value (ll_heap s ! h) in
         if ll_head s = ll_tail s
         then (Inr (Some removed_value), s\<lparr>ll_head := None, ll_tail := None\<rparr>)
         else
          (let s1 = s\<lparr>ll_head := node_next (ll_heap s ! h)\<rparr> in
           case ll_head s1 of
             None \<Rightarrow> (Inl AssertionError, s1)
           | Some h' \<Rightarrow>
              (Inr (Some removed_value), s1\<lparr>ll_heap := set_prev h' None (ll_heap s1)\<rparr>))))"

definition ll_pop_right :: "ll \<Rightarrow> (error + int option) \<times> ll" where
  "ll_pop_right s =
    (case ll_tail s of
       None \<Rightarrow> (Inr None, s)
     | Some t \<Rightarrow>
        (let removed_value = node_value (ll_heap s ! t) in
         if ll_head s = ll_tail s
         then (Inr (Some removed_value), s\<lparr>ll_head := None, ll_tail := None\<rparr>)
         else
          (let s1 = s\<lparr>ll_tail := node_prev (ll_heap s ! t)\<rparr> in
           case ll_tail s1 of
             None \<Rightarrow> (Inl AssertionError, s1)
           | Some t' \<Rightarrow>
              (Inr (Some removed_value), s1\<lparr>ll_heap := set_next t' None (ll_heap s1)\<rparr>))))"

partial_function (option) ll_iter_from :: "node list \<Rightarrow> ref \<Rightarrow> int list option" where
  "ll_iter_from h current =
    (case current of
       None \<Rightarrow> Some []
     | Some a \<Rightarrow>
         Option.bind (ll_iter_from h (node_next (h ! a)))
           (\<lambda>vs. Some (node_value (h ! a) # vs)))"

declare ll_iter_from.simps [code]

definition ll_iter :: "ll \<Rightarrow> (int list \<times> ll) option" where
  "ll_iter s = map_option (\<lambda>vs. (vs, s)) (ll_iter_from (ll_heap s) (ll_head s))"

section \<open>Callers\<close>

text \<open>
  The states a caller can produce: the fresh list, and whatever a public method leaves
  behind, also when the call raised and the caller caught the exception (as the module's
  own demonstration does around \<^verbatim>\<open>get(99)\<close>).
\<close>

inductive reachable :: "dll \<Rightarrow> bool" where
  reach_init: "reachable init"
| reach_append_left: "reachable s \<Longrightarrow> reachable (append_left v s)"
| reach_append_right: "reachable s \<Longrightarrow> reachable (append_right v s)"
| reach_pop_left: "reachable s \<Longrightarrow> reachable (snd (pop_left s))"
| reach_pop_right: "reachable s \<Longrightarrow> reachable (snd (pop_right s))"
| reach_get: "reachable s \<Longrightarrow> reachable (snd (get i s))"
| reach_iter: "reachable s \<Longrightarrow> iter s = Some (vs, s') \<Longrightarrow> reachable s'"

text \<open>
  A caller that pops \<open>n\<close> times from one side and collects what the calls return. An
  exception ends the loop.
\<close>

fun pops_left :: "nat \<Rightarrow> dll \<Rightarrow> (error + int option) list \<times> dll" where
  "pops_left 0 s = ([], s)"
| "pops_left (Suc n) s =
    (case pop_left s of
       (Inl e, s') \<Rightarrow> ([Inl e], s')
     | (Inr r, s') \<Rightarrow> (case pops_left n s' of (rs, s'') \<Rightarrow> (Inr r # rs, s'')))"

fun pops_right :: "nat \<Rightarrow> dll \<Rightarrow> (error + int option) list \<times> dll" where
  "pops_right 0 s = ([], s)"
| "pops_right (Suc n) s =
    (case pop_right s of
       (Inl e, s') \<Rightarrow> ([Inl e], s')
     | (Inr r, s') \<Rightarrow> (case pops_right n s' of (rs, s'') \<Rightarrow> (Inr r # rs, s'')))"

text \<open>A caller that appends the values of a list, one call each, in order.\<close>

definition appends_left :: "int list \<Rightarrow> dll \<Rightarrow> dll" where
  "appends_left xs s = fold append_left xs s"

definition appends_right :: "int list \<Rightarrow> dll \<Rightarrow> dll" where
  "appends_right xs s = fold append_right xs s"

text \<open>
  The calls the two classes share, and a caller that makes a sequence of them on either
  class, collecting what each call returns (\<^verbatim>\<open>None\<close> for an append). An
  exception ends the sequence.
\<close>

datatype call = AppendLeft int | AppendRight int | PopLeft | PopRight

fun step :: "call \<Rightarrow> dll \<Rightarrow> (error + int option) \<times> dll" where
  "step (AppendLeft v) s = (Inr None, append_left v s)"
| "step (AppendRight v) s = (Inr None, append_right v s)"
| "step PopLeft s = pop_left s"
| "step PopRight s = pop_right s"

fun run :: "call list \<Rightarrow> dll \<Rightarrow> (error + int option) list \<times> dll" where
  "run [] s = ([], s)"
| "run (c # cs) s =
    (case step c s of
       (Inl e, s') \<Rightarrow> ([Inl e], s')
     | (Inr r, s') \<Rightarrow> (case run cs s' of (rs, s'') \<Rightarrow> (Inr r # rs, s'')))"

fun ll_step :: "call \<Rightarrow> ll \<Rightarrow> (error + int option) \<times> ll" where
  "ll_step (AppendLeft v) s = (Inr None, ll_append_left v s)"
| "ll_step (AppendRight v) s = (Inr None, ll_append_right v s)"
| "ll_step PopLeft s = ll_pop_left s"
| "ll_step PopRight s = ll_pop_right s"

fun ll_run :: "call list \<Rightarrow> ll \<Rightarrow> (error + int option) list \<times> ll" where
  "ll_run [] s = ([], s)"
| "ll_run (c # cs) s =
    (case ll_step c s of
       (Inl e, s') \<Rightarrow> ([Inl e], s')
     | (Inr r, s') \<Rightarrow> (case ll_run cs s' of (rs, s'') \<Rightarrow> (Inr r # rs, s'')))"

text \<open>
  The list that the demonstration under \<^verbatim>\<open>__main__\<close> builds:
  \<^verbatim>\<open>append_right\<close> of 1, 2, 3, then \<^verbatim>\<open>append_left\<close> of 0 and -1.
\<close>

definition demo :: dll where
  "demo = append_left (-1) (append_left 0 (append_right 3 (append_right 2 (append_right 1 init))))"

section \<open>The shape of a well-formed list\<close>

text \<open>
  \<open>seg f h r as e\<close>: starting at the reference \<open>r\<close> and following the field \<open>f\<close>,
  one meets the nodes \<open>as\<close> in this order and then the reference \<open>e\<close>.
\<close>

fun seg :: "(node \<Rightarrow> ref) \<Rightarrow> node list \<Rightarrow> ref \<Rightarrow> nat list \<Rightarrow> ref \<Rightarrow> bool" where
  "seg f h r [] e = (r = e)"
| "seg f h r (a # as) e = (r = Some a \<and> seg f h (f (h ! a)) as e)"

definition vals :: "node list \<Rightarrow> nat list \<Rightarrow> int list" where
  "vals h as = map (\<lambda>a. node_value (h ! a)) as"

text \<open>
  \<open>rep s as\<close>: the list \<open>s\<close> consists of the nodes \<open>as\<close>, from head to tail. Following
  \<^verbatim>\<open>next\<close> from \<^verbatim>\<open>head\<close> gives \<open>as\<close> and ends, following \<^verbatim>\<open>prev\<close>
  from \<^verbatim>\<open>tail\<close> gives \<open>as\<close> backwards and ends, no node occurs twice, every
  node is an object of the store, and \<^verbatim>\<open>length\<close> counts them.
\<close>

definition rep :: "dll \<Rightarrow> nat list \<Rightarrow> bool" where
  "rep s as =
    (seg node_next (heap s) (head s) as None \<and>
     seg node_prev (heap s) (tail s) (rev as) None \<and>
     distinct as \<and> list_all (\<lambda>a. a < length (heap s)) as \<and>
     dll_length s = int (length as))"

definition holds :: "dll \<Rightarrow> int list \<Rightarrow> bool" where
  "holds s vs = (\<exists>as. rep s as \<and> vals (heap s) as = vs)"

text \<open>
  The nodes reachable by following \<^verbatim>\<open>next\<close> from a reference until it is
  absent; \<open>None\<close> if that never happens.
\<close>

partial_function (option) nodes_from :: "node list \<Rightarrow> ref \<Rightarrow> nat list option" where
  "nodes_from h r =
    (case r of
       None \<Rightarrow> Some []
     | Some a \<Rightarrow> Option.bind (nodes_from h (node_next (h ! a))) (\<lambda>as. Some (a # as)))"

declare nodes_from.simps [code]

text \<open>
  The structural invariant of the list object: \<^verbatim>\<open>head\<close> is absent exactly when
  \<^verbatim>\<open>tail\<close> is, exactly when \<^verbatim>\<open>length\<close> is \<open>0\<close>; the chain of
  \<^verbatim>\<open>next\<close> from \<^verbatim>\<open>head\<close> ends and has \<^verbatim>\<open>length\<close> nodes;
  a full iteration ends and yields \<^verbatim>\<open>length\<close> values.
\<close>

definition invariant :: "dll \<Rightarrow> bool" where
  "invariant s =
    ((head s = None) = (tail s = None) \<and>
     (tail s = None) = (dll_length s = 0) \<and>
     map_option (\<lambda>as. int (length as)) (nodes_from (heap s) (head s)) = Some (dll_length s) \<and>
     map_option (\<lambda>p. int (length (fst p))) (iter s) = Some (dll_length s))"

text \<open>
  Nothing of the list refers to the node \<open>a\<close>: not \<^verbatim>\<open>head\<close>, not
  \<^verbatim>\<open>tail\<close>, and not the \<^verbatim>\<open>next\<close> or \<^verbatim>\<open>prev\<close> of a node of
  the chain, of which \<open>a\<close> is none.
\<close>

definition unreferenced :: "nat \<Rightarrow> dll \<Rightarrow> bool" where
  "unreferenced a s =
    (head s \<noteq> Some a \<and> tail s \<noteq> Some a \<and>
     (case nodes_from (heap s) (head s) of
        None \<Rightarrow> False
      | Some as \<Rightarrow>
          a \<notin> set as \<and>
          list_all (\<lambda>b. node_next (heap s ! b) \<noteq> Some a \<and> node_prev (heap s ! b) \<noteq> Some a) as))"

text \<open>The tracked list without its counter, as an object of the untracked class.\<close>

definition untracked :: "dll \<Rightarrow> ll" where
  "untracked s = \<lparr>ll_heap = heap s, ll_head = head s, ll_tail = tail s\<rparr>"

section \<open>Stores and segments\<close>

lemma seg_append: "seg f h r (as @ bs) e = (\<exists>m. seg f h r as m \<and> seg f h m bs e)"
  by (induction as arbitrary: r) auto

lemma seg_snoc: "seg f h r (as @ [b]) e = (seg f h r as (Some b) \<and> f (h ! b) = e)"
  by (simp add: seg_append)

lemma seg_frame:
  "seg f h r as e \<Longrightarrow> (\<And>a. a \<in> set as \<Longrightarrow> f (h' ! a) = f (h ! a)) \<Longrightarrow> seg f h' r as e"
  by (induction as arbitrary: r) auto

lemma rep_init: "rep init []"
  by (simp add: rep_def init_def)

lemma rep_head_tail:
  assumes "rep s as"
  shows "head s = (if as = [] then None else Some (hd as))"
    and "tail s = (if as = [] then None else Some (last as))"
proof -
  show "head s = (if as = [] then None else Some (hd as))"
    using assms by (cases as) (auto simp: rep_def)
  show "tail s = (if as = [] then None else Some (last as))"
    using assms by (cases as rule: rev_cases) (auto simp: rep_def)
qed

lemma nth_set_next [simp]:
  "node_prev (set_next a r h ! b) = node_prev (h ! b)"
  "node_value (set_next a r h ! b) = node_value (h ! b)"
  "length (set_next a r h) = length h"
  by (cases "a < length h", simp_all add: set_next_def nth_list_update list_update_beyond not_less)+

lemma nth_set_prev [simp]:
  "node_next (set_prev a r h ! b) = node_next (h ! b)"
  "node_value (set_prev a r h ! b) = node_value (h ! b)"
  "length (set_prev a r h) = length h"
  by (cases "a < length h", simp_all add: set_prev_def nth_list_update list_update_beyond not_less)+

lemma next_set_next:
  "a < length h \<Longrightarrow> node_next (set_next a r h ! b) = (if b = a then r else node_next (h ! b))"
  by (simp add: set_next_def)

lemma prev_set_prev:
  "a < length h \<Longrightarrow> node_prev (set_prev a r h ! b) = (if b = a then r else node_prev (h ! b))"
  by (simp add: set_prev_def)

lemma rep_bound: "rep s as \<Longrightarrow> a \<in> set as \<Longrightarrow> a < length (heap s)"
  by (simp add: rep_def list_all_iff)

lemma append_left_empty:
  assumes "head s = None"
  shows "append_left v s =
    s\<lparr>heap := heap s @ [Node v], dll_length := dll_length s + 1,
      tail := Some (length (heap s)), head := Some (length (heap s))\<rparr>"
  using assms by (simp add: append_left_def Let_def)

lemma append_left_nonempty:
  assumes "head s = Some a"
  shows "append_left v s =
    s\<lparr>heap := set_prev a (Some (length (heap s)))
              (set_next (length (heap s)) (Some a) (heap s @ [Node v])),
      dll_length := dll_length s + 1, head := Some (length (heap s))\<rparr>"
  using assms by (simp add: append_left_def Let_def)

lemma rep_append_left:
  assumes "rep s as"
  shows "rep (append_left v s) (length (heap s) # as)"
proof (cases as)
  case Nil
  with assms have "head s = None" by (simp add: rep_def)
  then show ?thesis using assms Nil
    by (simp add: append_left_empty rep_def Node_def)
next
  case (Cons a as')
  let ?n = "length (heap s)"
  let ?h1 = "heap s @ [Node v]"
  let ?h2 = "set_next ?n (Some a) ?h1"
  let ?h3 = "set_prev a (Some ?n) ?h2"
  have hd: "head s = Some a" using assms Cons by (simp add: rep_def)
  have bnd: "\<And>b. b \<in> set as \<Longrightarrow> b < ?n" using assms by (rule rep_bound)
  have a_lt: "a < ?n" using bnd Cons by simp
  have dist: "a \<notin> set as'" "distinct as'" using assms Cons by (simp_all add: rep_def)
  have nx: "seg node_next (heap s) (Some a) (a # as') None"
    using assms Cons hd by (simp add: rep_def)
  have pv: "seg node_prev (heap s) (tail s) (rev as') (Some a)" "node_prev (heap s ! a) = None"
    using assms Cons by (simp_all add: rep_def seg_snoc)
  have nx3: "seg node_next ?h3 (Some a) (a # as') None"
    using nx
  proof (rule seg_frame)
    fix b assume "b \<in> set (a # as')"
    then have "b < ?n" using bnd Cons by simp
    then show "node_next (?h3 ! b) = node_next (heap s ! b)"
      by (simp add: next_set_next nth_append)
  qed
  have pv3: "seg node_prev ?h3 (tail s) (rev as') (Some a)"
    using pv(1)
  proof (rule seg_frame)
    fix b assume b: "b \<in> set (rev as')"
    then have "b < ?n" "b \<noteq> a" using bnd Cons dist by auto
    then show "node_prev (?h3 ! b) = node_prev (heap s ! b)"
      using a_lt by (simp add: prev_set_prev nth_append)
  qed
  have n_nx: "node_next (?h3 ! ?n) = Some a" by (simp add: next_set_next)
  have a_pv: "node_prev (?h3 ! a) = Some ?n" using a_lt by (simp add: prev_set_prev)
  have n_pv: "node_prev (?h3 ! ?n) = None" using a_lt by (simp add: prev_set_prev Node_def)
  have fresh: "?n \<notin> set as" using bnd by blast
  have st: "append_left v s = s\<lparr>heap := ?h3, dll_length := dll_length s + 1, head := Some ?n\<rparr>"
    by (rule append_left_nonempty[OF hd])
  have "seg node_next ?h3 (Some ?n) (?n # as) None"
    using nx3 n_nx Cons by simp
  moreover have "seg node_prev ?h3 (tail s) (rev (?n # as)) None"
    using pv3 a_pv n_pv Cons by (simp add: seg_append)
  moreover have "distinct (?n # as)" using fresh assms by (simp add: rep_def)
  moreover have "list_all (\<lambda>b. b < length ?h3) (?n # as)"
    using bnd by (simp add: list_all_iff less_Suc_eq)
  moreover have "dll_length s + 1 = int (length (?n # as))"
    using assms by (simp add: rep_def)
  ultimately show ?thesis
    unfolding rep_def st by simp
qed

lemma vals_append_left:
  assumes "rep s as"
  shows "vals (heap (append_left v s)) (length (heap s) # as) = v # vals (heap s) as"
proof -
  have bnd: "\<And>b. b \<in> set as \<Longrightarrow> b < length (heap s)" using assms by (rule rep_bound)
  show ?thesis
  proof (cases "head s")
    case None
    then show ?thesis using bnd
      by (simp add: append_left_empty vals_def nth_append Node_def)
  next
    case (Some a)
    then show ?thesis using bnd
      by (simp add: append_left_nonempty vals_def nth_append Node_def)
  qed
qed

lemma append_right_empty:
  assumes "tail s = None"
  shows "append_right v s =
    s\<lparr>heap := heap s @ [Node v], dll_length := dll_length s + 1,
      tail := Some (length (heap s)), head := Some (length (heap s))\<rparr>"
  using assms by (simp add: append_right_def Let_def)

lemma append_right_nonempty:
  assumes "tail s = Some a"
  shows "append_right v s =
    s\<lparr>heap := set_next a (Some (length (heap s)))
              (set_prev (length (heap s)) (Some a) (heap s @ [Node v])),
      dll_length := dll_length s + 1, tail := Some (length (heap s))\<rparr>"
  using assms by (simp add: append_right_def Let_def)

lemma rep_append_right:
  assumes "rep s as"
  shows "rep (append_right v s) (as @ [length (heap s)])"
proof (cases as rule: rev_cases)
  case Nil
  with assms have "tail s = None" by (simp add: rep_def)
  then show ?thesis using assms Nil
    by (simp add: append_right_empty rep_def Node_def)
next
  case (snoc as' a)
  let ?n = "length (heap s)"
  let ?h1 = "heap s @ [Node v]"
  let ?h2 = "set_prev ?n (Some a) ?h1"
  let ?h3 = "set_next a (Some ?n) ?h2"
  have tl: "tail s = Some a" using assms snoc by (simp add: rep_def)
  have bnd: "\<And>b. b \<in> set as \<Longrightarrow> b < ?n" using assms by (rule rep_bound)
  have a_lt: "a < ?n" using bnd snoc by simp
  have dist: "a \<notin> set as'" "distinct as'" using assms snoc by (simp_all add: rep_def)
  have pv: "seg node_prev (heap s) (Some a) (a # rev as') None"
    using assms snoc tl by (simp add: rep_def)
  have nx: "seg node_next (heap s) (head s) as' (Some a)" "node_next (heap s ! a) = None"
    using assms snoc by (simp_all add: rep_def seg_snoc)
  have pv3: "seg node_prev ?h3 (Some a) (a # rev as') None"
    using pv
  proof (rule seg_frame)
    fix b assume "b \<in> set (a # rev as')"
    then have "b < ?n" using bnd snoc by auto
    then show "node_prev (?h3 ! b) = node_prev (heap s ! b)"
      by (simp add: prev_set_prev nth_append)
  qed
  have nx3: "seg node_next ?h3 (head s) as' (Some a)"
    using nx(1)
  proof (rule seg_frame)
    fix b assume b: "b \<in> set as'"
    then have "b < ?n" "b \<noteq> a" using bnd snoc dist by auto
    then show "node_next (?h3 ! b) = node_next (heap s ! b)"
      using a_lt by (simp add: next_set_next nth_append)
  qed
  have n_pv: "node_prev (?h3 ! ?n) = Some a" by (simp add: prev_set_prev)
  have a_nx: "node_next (?h3 ! a) = Some ?n" using a_lt by (simp add: next_set_next)
  have n_nx: "node_next (?h3 ! ?n) = None" using a_lt by (simp add: next_set_next Node_def)
  have fresh: "?n \<notin> set as" using bnd by blast
  have st: "append_right v s = s\<lparr>heap := ?h3, dll_length := dll_length s + 1, tail := Some ?n\<rparr>"
    by (rule append_right_nonempty[OF tl])
  have "seg node_next ?h3 (head s) (as @ [?n]) None"
    using nx3 a_nx n_nx snoc by (simp add: seg_append)
  moreover have "seg node_prev ?h3 (Some ?n) (rev (as @ [?n])) None"
    using pv3 n_pv snoc by simp
  moreover have "distinct (as @ [?n])" using fresh assms by (simp add: rep_def)
  moreover have "list_all (\<lambda>b. b < length ?h3) (as @ [?n])"
    using bnd by (simp add: list_all_iff less_Suc_eq)
  moreover have "dll_length s + 1 = int (length (as @ [?n]))"
    using assms by (simp add: rep_def)
  ultimately show ?thesis
    unfolding rep_def st by simp
qed

lemma vals_append_right:
  assumes "rep s as"
  shows "vals (heap (append_right v s)) (as @ [length (heap s)]) = vals (heap s) as @ [v]"
proof -
  have bnd: "\<And>b. b \<in> set as \<Longrightarrow> b < length (heap s)" using assms by (rule rep_bound)
  show ?thesis
  proof (cases "tail s")
    case None
    then show ?thesis using bnd
      by (simp add: append_right_empty vals_def nth_append Node_def)
  next
    case (Some a)
    then show ?thesis using bnd
      by (simp add: append_right_nonempty vals_def nth_append Node_def)
  qed
qed

lemma pop_left_none: "head s = None \<Longrightarrow> pop_left s = (Inr None, s)"
  by (simp add: pop_left_def)

lemma pop_left_single:
  assumes "rep s [a]"
  shows "pop_left s =
    (Inr (Some (node_value (heap s ! a))), s\<lparr>head := None, tail := None, dll_length := 0\<rparr>)"
  using assms by (simp add: pop_left_def rep_def)

lemma pop_left_many:
  assumes "rep s (a # b # bs)"
  shows "pop_left s =
    (Inr (Some (node_value (heap s ! a))),
     s\<lparr>head := Some b, heap := set_prev b None (heap s), dll_length := dll_length s - 1\<rparr>)"
proof -
  have "head s = Some a" "node_next (heap s ! a) = Some b"
    using assms by (simp_all add: rep_def)
  moreover have "tail s = Some (last (b # bs))"
    using rep_head_tail(2)[OF assms] by simp
  moreover have "last (b # bs) \<noteq> a"
    using assms last_in_set[of "b # bs"] by (auto simp: rep_def simp del: last_in_set)
  ultimately show ?thesis
    by (simp add: pop_left_def Let_def)
qed

lemma rep_pop_left_many:
  assumes "rep s (a # b # bs)"
  shows "rep (s\<lparr>head := Some b, heap := set_prev b None (heap s), dll_length := dll_length s - 1\<rparr>)
           (b # bs)"
proof -
  let ?h = "set_prev b None (heap s)"
  have b_lt: "b < length (heap s)" using rep_bound[OF assms, of b] by simp
  have dist: "b \<notin> set bs" using assms by (simp add: rep_def)
  have "seg node_next (heap s) (Some b) (b # bs) None"
    using assms by (simp add: rep_def)
  then have nx: "seg node_next ?h (Some b) (b # bs) None"
    by (rule seg_frame) simp
  have "seg node_prev (heap s) (tail s) (rev bs) (Some b)"
    using assms by (simp add: rep_def seg_append)
  then have pv: "seg node_prev ?h (tail s) (rev bs) (Some b)"
  proof (rule seg_frame)
    fix c assume "c \<in> set (rev bs)"
    then have "c \<noteq> b" using dist by auto
    then show "node_prev (?h ! c) = node_prev (heap s ! c)"
      using b_lt by (simp add: prev_set_prev)
  qed
  have "node_prev (?h ! b) = None" using b_lt by (simp add: prev_set_prev)
  with nx pv assms show ?thesis
    by (simp add: rep_def seg_append)
qed

lemma pop_right_none: "tail s = None \<Longrightarrow> pop_right s = (Inr None, s)"
  by (simp add: pop_right_def)

lemma pop_right_single:
  assumes "rep s [a]"
  shows "pop_right s =
    (Inr (Some (node_value (heap s ! a))), s\<lparr>head := None, tail := None, dll_length := 0\<rparr>)"
  using assms by (simp add: pop_right_def rep_def)

lemma pop_right_many:
  assumes "rep s (bs @ [b, a])"
  shows "pop_right s =
    (Inr (Some (node_value (heap s ! a))),
     s\<lparr>tail := Some b, heap := set_next b None (heap s), dll_length := dll_length s - 1\<rparr>)"
proof -
  have "tail s = Some a" "node_prev (heap s ! a) = Some b"
    using assms by (simp_all add: rep_def)
  moreover have "head s = Some (hd (bs @ [b]))"
    using rep_head_tail(1)[OF assms] by (cases bs) simp_all
  moreover have "hd (bs @ [b]) \<noteq> a"
    using assms hd_in_set[of "bs @ [b]"] by (auto simp: rep_def)
  ultimately show ?thesis
    by (simp add: pop_right_def Let_def)
qed

lemma rep_pop_right_many:
  assumes "rep s (bs @ [b, a])"
  shows "rep (s\<lparr>tail := Some b, heap := set_next b None (heap s), dll_length := dll_length s - 1\<rparr>)
           (bs @ [b])"
proof -
  let ?h = "set_next b None (heap s)"
  have b_lt: "b < length (heap s)" using rep_bound[OF assms, of b] by simp
  have dist: "b \<notin> set bs" using assms by (simp add: rep_def)
  have "seg node_prev (heap s) (Some b) (b # rev bs) None"
    using assms by (simp add: rep_def)
  then have pv: "seg node_prev ?h (Some b) (b # rev bs) None"
    by (rule seg_frame) simp
  have "seg node_next (heap s) (head s) bs (Some b)"
    using assms by (simp add: rep_def seg_append)
  then have nx: "seg node_next ?h (head s) bs (Some b)"
  proof (rule seg_frame)
    fix c assume "c \<in> set bs"
    then have "c \<noteq> b" using dist by auto
    then show "node_next (?h ! c) = node_next (heap s ! c)"
      using b_lt by (simp add: next_set_next)
  qed
  have "node_next (?h ! b) = None" using b_lt by (simp add: next_set_next)
  with nx pv assms show ?thesis
    by (simp add: rep_def seg_append)
qed

lemma walk_next_seg:
  "seg node_next h r as e \<Longrightarrow> n \<le> length as \<Longrightarrow>
   walk_next h r n = Inr (if n < length as then Some (as ! n) else e)"
proof (induction n arbitrary: r as)
  case 0
  then show ?case by (cases as) auto
next
  case (Suc n)
  then obtain a as' where "as = a # as'" by (cases as) auto
  with Suc show ?case by auto
qed

lemma walk_prev_seg:
  "seg node_prev h r as e \<Longrightarrow> n \<le> length as \<Longrightarrow>
   walk_prev h r n = Inr (if n < length as then Some (as ! n) else e)"
proof (induction n arbitrary: r as)
  case 0
  then show ?case by (cases as) auto
next
  case (Suc n)
  then obtain a as' where "as = a # as'" by (cases as) auto
  with Suc show ?case by auto
qed

lemma iter_from_seg: "seg node_next h r as None \<Longrightarrow> iter_from h r = Some (vals h as)"
proof (induction as arbitrary: r)
  case Nil
  then show ?case by (simp add: iter_from.simps vals_def)
next
  case (Cons a as)
  then have "iter_from h (node_next (h ! a)) = Some (vals h as)" by simp
  with Cons.prems show ?case
    by (subst iter_from.simps) (simp add: vals_def)
qed

lemma rep_walks:
  assumes "rep s as" and "n < length as"
  shows "walk_next (heap s) (head s) n = Inr (Some (as ! n))"
    and "walk_prev (heap s) (tail s) (length as - Suc n) = Inr (Some (as ! n))"
proof -
  have "seg node_next (heap s) (head s) as None" using assms(1) by (simp add: rep_def)
  from walk_next_seg[OF this, of n] assms(2)
  show "walk_next (heap s) (head s) n = Inr (Some (as ! n))" by simp
  have "seg node_prev (heap s) (tail s) (rev as) None" using assms(1) by (simp add: rep_def)
  from walk_prev_seg[OF this, of "length as - Suc n"] assms(2)
  show "walk_prev (heap s) (tail s) (length as - Suc n) = Inr (Some (as ! n))"
    by (simp add: rev_nth)
qed

lemma rep_get:
  assumes "rep s as" and "0 \<le> i" and "i < int (length as)"
  shows "get i s = (Inr (vals (heap s) as ! nat i), s)"
proof -
  have len: "dll_length s = int (length as)" using assms(1) by (simp add: rep_def)
  have n: "nat i < length as" using assms by simp
  have eq: "nat (int (length as) - i - 1) = length as - Suc (nat i)"
    using assms by simp
  show ?thesis
    using rep_walks[OF assms(1) n] assms(2,3) n len
    by (simp add: get_def eq value_at_def vals_def)
qed

lemma rep_get_out:
  assumes "rep s as" and "i < 0 \<or> int (length as) \<le> i"
  shows "get i s = (Inl (IndexError ''Index out of range''), s)"
  using assms by (auto simp: get_def rep_def)

lemma rep_iter: "rep s as \<Longrightarrow> iter s = Some (vals (heap s) as, s)"
  by (simp add: iter_def rep_def iter_from_seg)

section \<open>What each method does to a well-formed list\<close>

lemma nodes_from_seg: "seg node_next h r as None \<Longrightarrow> nodes_from h r = Some as"
proof (induction as arbitrary: r)
  case Nil
  then show ?case by (simp add: nodes_from.simps)
next
  case (Cons a as)
  then have "nodes_from h (node_next (h ! a)) = Some as" by simp
  with Cons.prems show ?case
    by (subst nodes_from.simps) simp
qed

lemma ll_iter_from_seg: "seg node_next h r as None \<Longrightarrow> ll_iter_from h r = Some (vals h as)"
proof (induction as arbitrary: r)
  case Nil
  then show ?case by (simp add: ll_iter_from.simps vals_def)
next
  case (Cons a as)
  then have "ll_iter_from h (node_next (h ! a)) = Some (vals h as)" by simp
  with Cons.prems show ?case
    by (subst ll_iter_from.simps) (simp add: vals_def)
qed

lemma seg_field:
  "seg f h r as e \<Longrightarrow> b \<in> set as \<Longrightarrow> f (h ! b) = e \<or> (\<exists>c \<in> set as. f (h ! b) = Some c)"
proof (induction as arbitrary: r)
  case Nil
  then show ?case by simp
next
  case (Cons a as)
  show ?case
  proof (cases "b = a")
    case True
    then show ?thesis using Cons.prems(1) by (cases as) auto
  next
    case False
    then show ?thesis using Cons by auto
  qed
qed

lemma rep_pop_left:
  assumes "rep s (a # as)"
  shows "fst (pop_left s) = Inr (Some (node_value (heap s ! a)))"
    and "rep (snd (pop_left s)) as"
    and "vals (heap (snd (pop_left s))) as = vals (heap s) as"
    and "node_next (heap (snd (pop_left s)) ! a) = node_next (heap s ! a)"
    and "node_prev (heap (snd (pop_left s)) ! a) = None"
proof -
  have pa: "node_prev (heap s ! a) = None"
    using assms by (simp add: rep_def seg_append)
  show "fst (pop_left s) = Inr (Some (node_value (heap s ! a)))"
    using assms pop_left_single pop_left_many by (cases as) simp_all
  show "rep (snd (pop_left s)) as"
  proof (cases as)
    case Nil
    then have "pop_left s = (Inr (Some (node_value (heap s ! a))),
        s\<lparr>head := None, tail := None, dll_length := 0\<rparr>)"
      using assms pop_left_single by simp
    then show ?thesis using Nil by (simp add: rep_def)
  next
    case (Cons b bs)
    then show ?thesis using assms rep_pop_left_many by (simp add: pop_left_many)
  qed
  show "vals (heap (snd (pop_left s))) as = vals (heap s) as"
    using assms pop_left_single pop_left_many by (cases as) (simp_all add: vals_def)
  show "node_next (heap (snd (pop_left s)) ! a) = node_next (heap s ! a)"
    using assms pop_left_single pop_left_many by (cases as) simp_all
  show "node_prev (heap (snd (pop_left s)) ! a) = None"
  proof (cases as)
    case Nil
    then show ?thesis using assms pa by (simp add: pop_left_single)
  next
    case (Cons b bs)
    have "b < length (heap s)" "b \<noteq> a"
      using assms Cons rep_bound[OF assms, of b] by (auto simp: rep_def)
    then show ?thesis using assms Cons pa by (simp add: pop_left_many prev_set_prev)
  qed
qed

lemma rep_pop_right:
  assumes "rep s (as @ [a])"
  shows "fst (pop_right s) = Inr (Some (node_value (heap s ! a)))"
    and "rep (snd (pop_right s)) as"
    and "vals (heap (snd (pop_right s))) as = vals (heap s) as"
    and "node_prev (heap (snd (pop_right s)) ! a) = node_prev (heap s ! a)"
    and "node_next (heap (snd (pop_right s)) ! a) = None"
proof -
  have pa: "node_next (heap s ! a) = None"
    using assms by (simp add: rep_def seg_append)
  show "fst (pop_right s) = Inr (Some (node_value (heap s ! a)))"
    using assms pop_right_single pop_right_many by (cases as rule: rev_cases) simp_all
  show "rep (snd (pop_right s)) as"
  proof (cases as rule: rev_cases)
    case Nil
    then have "pop_right s = (Inr (Some (node_value (heap s ! a))),
        s\<lparr>head := None, tail := None, dll_length := 0\<rparr>)"
      using assms pop_right_single by simp
    then show ?thesis using Nil by (simp add: rep_def)
  next
    case (snoc bs b)
    then show ?thesis using assms rep_pop_right_many by (simp add: pop_right_many)
  qed
  show "vals (heap (snd (pop_right s))) as = vals (heap s) as"
    using assms pop_right_single pop_right_many
    by (cases as rule: rev_cases) (simp_all add: vals_def)
  show "node_prev (heap (snd (pop_right s)) ! a) = node_prev (heap s ! a)"
    using assms pop_right_single pop_right_many by (cases as rule: rev_cases) simp_all
  show "node_next (heap (snd (pop_right s)) ! a) = None"
  proof (cases as rule: rev_cases)
    case Nil
    then show ?thesis using assms pa by (simp add: pop_right_single)
  next
    case (snoc bs b)
    have "b < length (heap s)" "b \<noteq> a"
      using assms snoc rep_bound[OF assms, of b] by (auto simp: rep_def)
    then show ?thesis using assms snoc pa by (simp add: pop_right_many next_set_next)
  qed
qed

lemma rep_empty_iff:
  assumes "rep s as"
  shows "head s = None \<longleftrightarrow> as = []" and "tail s = None \<longleftrightarrow> as = []"
    and "dll_length s = 0 \<longleftrightarrow> as = []"
  using rep_head_tail[OF assms] assms by (auto simp: rep_def)

lemma rep_pop_left_empty: "rep s [] \<Longrightarrow> pop_left s = (Inr None, s)"
  by (simp add: pop_left_none rep_def)

lemma rep_pop_right_empty: "rep s [] \<Longrightarrow> pop_right s = (Inr None, s)"
  by (simp add: pop_right_none rep_def)

lemma rep_get_state: "snd (get i s) = s"
  by (simp add: get_def)

lemma reachable_rep: "reachable s \<Longrightarrow> \<exists>as. rep s as"
proof (induction rule: reachable.induct)
  case reach_init
  show ?case using rep_init ..
next
  case (reach_append_left s v)
  then show ?case using rep_append_left by blast
next
  case (reach_append_right s v)
  then show ?case using rep_append_right by blast
next
  case (reach_pop_left s)
  then obtain as where r: "rep s as" by blast
  show ?case
  proof (cases as)
    case Nil
    then show ?thesis using r rep_pop_left_empty by fastforce
  next
    case (Cons a bs)
    then show ?thesis using r rep_pop_left(2) by blast
  qed
next
  case (reach_pop_right s)
  then obtain as where r: "rep s as" by blast
  show ?case
  proof (cases as rule: rev_cases)
    case Nil
    then show ?thesis using r rep_pop_right_empty by fastforce
  next
    case (snoc bs a)
    then show ?thesis using r rep_pop_right(2) by blast
  qed
next
  case (reach_get s i)
  then show ?case by (simp add: rep_get_state)
next
  case (reach_iter s vs s')
  then show ?case by (auto simp: iter_def)
qed

section \<open>The sequence of values a list holds\<close>

lemma holds_append_left: "holds s vs \<Longrightarrow> holds (append_left v s) (v # vs)"
  unfolding holds_def using rep_append_left vals_append_left by blast

lemma holds_append_right: "holds s vs \<Longrightarrow> holds (append_right v s) (vs @ [v])"
  unfolding holds_def using rep_append_right vals_append_right by blast

lemma holds_pop_left:
  assumes "holds s (v # vs)"
  shows "fst (pop_left s) = Inr (Some v)" and "holds (snd (pop_left s)) vs"
proof -
  from assms obtain as where r: "rep s as" and v: "vals (heap s) as = v # vs"
    unfolding holds_def by blast
  from v obtain a bs where as: "as = a # bs" by (cases as) (auto simp: vals_def)
  with v have hv: "node_value (heap s ! a) = v" "vals (heap s) bs = vs"
    by (simp_all add: vals_def)
  from rep_pop_left(1)[of s a bs] r as hv show "fst (pop_left s) = Inr (Some v)" by simp
  from rep_pop_left(2,3)[of s a bs] r as hv show "holds (snd (pop_left s)) vs"
    unfolding holds_def by auto
qed

lemma holds_pop_right:
  assumes "holds s (vs @ [v])"
  shows "fst (pop_right s) = Inr (Some v)" and "holds (snd (pop_right s)) vs"
proof -
  from assms obtain as where r: "rep s as" and v: "vals (heap s) as = vs @ [v]"
    unfolding holds_def by blast
  from v obtain bs a where as: "as = bs @ [a]" by (cases as rule: rev_cases) (auto simp: vals_def)
  with v have hv: "node_value (heap s ! a) = v" "vals (heap s) bs = vs"
    by (simp_all add: vals_def)
  from rep_pop_right(1)[of s bs a] r as hv show "fst (pop_right s) = Inr (Some v)" by simp
  from rep_pop_right(2,3)[of s bs a] r as hv show "holds (snd (pop_right s)) vs"
    unfolding holds_def by auto
qed

lemma holds_pop_empty:
  assumes "holds s []"
  shows "pop_left s = (Inr None, s)" and "pop_right s = (Inr None, s)"
  using assms rep_pop_left_empty rep_pop_right_empty by (auto simp: holds_def vals_def)

lemma holds_iter: "holds s vs \<Longrightarrow> iter s = Some (vs, s)"
  using rep_iter by (auto simp: holds_def)

lemma reachable_holds: "reachable s \<Longrightarrow> \<exists>vs. holds s vs"
  using reachable_rep by (auto simp: holds_def)

lemma holds_appends_left: "holds s ys \<Longrightarrow> holds (appends_left xs s) (rev xs @ ys)"
  unfolding appends_left_def
proof (induction xs arbitrary: s ys)
  case Nil
  then show ?case by simp
next
  case (Cons x xs)
  from Cons.IH[OF holds_append_left[OF Cons.prems, of x]] show ?case by simp
qed

lemma holds_appends_right: "holds s ys \<Longrightarrow> holds (appends_right xs s) (ys @ xs)"
  unfolding appends_right_def
proof (induction xs arbitrary: s ys)
  case Nil
  then show ?case by simp
next
  case (Cons x xs)
  from Cons.IH[OF holds_append_right[OF Cons.prems, of x]] show ?case by simp
qed

lemma holds_pops_left:
  "holds s (xs @ ys) \<Longrightarrow>
   fst (pops_left (length xs) s) = map (\<lambda>x. Inr (Some x)) xs \<and>
   holds (snd (pops_left (length xs) s)) ys"
proof (induction xs arbitrary: s)
  case Nil
  then show ?case by simp
next
  case (Cons x xs)
  then have h: "holds s (x # (xs @ ys))" by simp
  obtain s' where p: "pop_left s = (Inr (Some x), s')"
    using holds_pop_left(1)[OF h] by (cases "pop_left s") auto
  with holds_pop_left(2)[OF h] have "holds s' (xs @ ys)" by simp
  from Cons.IH[OF this] p show ?case by (auto split: prod.splits)
qed

lemma holds_pops_right:
  "holds s (ys @ xs) \<Longrightarrow>
   fst (pops_right (length xs) s) = map (\<lambda>x. Inr (Some x)) (rev xs) \<and>
   holds (snd (pops_right (length xs) s)) ys"
proof (induction xs arbitrary: s rule: rev_induct)
  case Nil
  then show ?case by simp
next
  case (snoc x xs)
  then have h: "holds s ((ys @ xs) @ [x])" by simp
  obtain s' where p: "pop_right s = (Inr (Some x), s')"
    using holds_pop_right(1)[OF h] by (cases "pop_right s") auto
  with holds_pop_right(2)[OF h] have "holds s' (ys @ xs)" by simp
  from snoc.IH[OF this] p show ?case by (auto split: prod.splits)
qed

lemma holds_pops_empty:
  assumes "holds s []"
  shows "pops_left n s = (replicate n (Inr None), s)"
    and "pops_right n s = (replicate n (Inr None), s)"
  using holds_pop_empty[OF assms] by (induction n) simp_all

lemma rep_nodes: "rep s as \<Longrightarrow> nodes_from (heap s) (head s) = Some as"
  by (simp add: rep_def nodes_from_seg)

lemma rep_invariant: "rep s as \<Longrightarrow> invariant s"
  using rep_empty_iff[of s as]
  by (simp add: invariant_def rep_nodes rep_iter vals_def) (simp add: rep_def)

lemma reachable_invariant: "reachable s \<Longrightarrow> invariant s"
  using reachable_rep rep_invariant by blast

lemma reachable_demo: "reachable demo"
  unfolding demo_def by (intro reachable.intros)

section \<open>Detached nodes\<close>

lemma seg_no_ref:
  assumes "seg f h r as None" and "a \<notin> set as" and "b \<in> set as"
  shows "f (h ! b) \<noteq> Some a"
  using seg_field[OF assms(1,3)] assms(2) by auto

lemma rep_unreferenced:
  assumes "rep s as" and "a \<notin> set as"
  shows "unreferenced a s"
proof -
  have nx: "seg node_next (heap s) (head s) as None"
    and pv: "seg node_prev (heap s) (tail s) (rev as) None"
    using assms(1) by (simp_all add: rep_def)
  have "head s \<noteq> Some a" "tail s \<noteq> Some a"
    using rep_head_tail[OF assms(1)] assms(2) by (auto split: if_splits)
  moreover have "node_next (heap s ! b) \<noteq> Some a" if "b \<in> set as" for b
    using seg_no_ref[OF nx assms(2) that] .
  moreover have "node_prev (heap s ! b) \<noteq> Some a" if "b \<in> set as" for b
    using seg_no_ref[OF pv, of a b] assms(2) that by simp
  ultimately show ?thesis
    using assms(2) by (simp add: unreferenced_def rep_nodes[OF assms(1)] list_all_iff)
qed

section \<open>The untracked list follows the tracked one\<close>

lemma untracked_init: "untracked init = ll_init"
  by (simp add: untracked_def init_def ll_init_def)

lemma untracked_append_left: "ll_append_left v (untracked s) = untracked (append_left v s)"
  by (simp add: ll_append_left_def append_left_def untracked_def Let_def split: option.splits)

lemma untracked_append_right: "ll_append_right v (untracked s) = untracked (append_right v s)"
  by (simp add: ll_append_right_def append_right_def untracked_def Let_def split: option.splits)

lemma untracked_pop_left:
  "ll_pop_left (untracked s) = (fst (pop_left s), untracked (snd (pop_left s)))"
  by (simp add: ll_pop_left_def pop_left_def untracked_def Let_def split: option.splits)

lemma untracked_pop_right:
  "ll_pop_right (untracked s) = (fst (pop_right s), untracked (snd (pop_right s)))"
  by (simp add: ll_pop_right_def pop_right_def untracked_def Let_def split: option.splits)

lemma untracked_step: "ll_step c (untracked s) = (fst (step c s), untracked (snd (step c s)))"
  by (cases c)
     (simp_all add: untracked_append_left untracked_append_right untracked_pop_left
        untracked_pop_right)

lemma untracked_run: "ll_run cs (untracked s) = (fst (run cs s), untracked (snd (run cs s)))"
proof (induction cs arbitrary: s)
  case Nil
  show ?case by simp
next
  case (Cons c cs)
  obtain r s' where st: "step c s = (r, s')" by (cases "step c s")
  then have lst: "ll_step c (untracked s) = (r, untracked s')"
    by (simp add: untracked_step)
  show ?case
  proof (cases r)
    case (Inl e)
    with st lst show ?thesis by simp
  next
    case (Inr x)
    with st lst Cons.IH[of s'] show ?thesis by (simp split: prod.splits)
  qed
qed

lemma reachable_step: "reachable s \<Longrightarrow> reachable (snd (step c s))"
  by (cases c) (simp_all add: reachable.intros)

lemma reachable_run: "reachable s \<Longrightarrow> reachable (snd (run cs s))"
proof (induction cs arbitrary: s)
  case Nil
  then show ?case by simp
next
  case (Cons c cs)
  obtain r s' where st: "step c s = (r, s')" by (cases "step c s")
  with reachable_step[OF Cons.prems, of c] have r': "reachable s'" by simp
  show ?case
  proof (cases r)
    case (Inl e)
    with st r' show ?thesis by simp
  next
    case (Inr x)
    with st Cons.IH[OF r'] show ?thesis by (auto split: prod.splits)
  qed
qed

lemma rep_ll_iter: "rep s as \<Longrightarrow> ll_iter (untracked s) = Some (vals (heap s) as, untracked s)"
  by (simp add: ll_iter_def untracked_def rep_def ll_iter_from_seg)

section \<open>Properties of the two lists\<close>

text \<open>
  C1. The structural invariant holds for the fresh list and after every public method
  called on a reachable list: \<^verbatim>\<open>head\<close> is absent exactly when
  \<^verbatim>\<open>tail\<close> is absent, exactly when \<^verbatim>\<open>length\<close> is \<open>0\<close>, and
  \<^verbatim>\<open>length\<close> is the number of nodes on the chain of \<^verbatim>\<open>next\<close> from
  \<^verbatim>\<open>head\<close>, which is the number of values a full iteration yields. Iteration
  ends and leaves the list as it was.
\<close>

theorem invariant_preserved:
  "invariant init \<and>
   (reachable s \<longrightarrow>
      invariant s \<and> invariant (append_left v s) \<and> invariant (append_right v s) \<and>
      invariant (snd (pop_left s)) \<and> invariant (snd (pop_right s)) \<and>
      invariant (snd (get i s)) \<and> (\<exists>vs. iter s = Some (vs, s)))"
proof -
  have "invariant init" by (rule reachable_invariant) (rule reach_init)
  moreover have "\<exists>vs. iter s = Some (vs, s)" if "reachable s"
    using reachable_rep[OF that] rep_iter by blast
  ultimately show ?thesis
    by (blast intro: reachable_invariant reachable.intros)
qed

theorem invariant_preserved_witness:
  "reachable demo \<and> invariant demo \<and> invariant (snd (pop_left demo)) \<and>
   dll_length demo = 5 \<and> iter demo = Some ([-1, 0, 1, 2, 3], demo)"
proof -
  have "dll_length demo = 5" "iter demo = Some ([-1, 0, 1, 2, 3], demo)"
    by code_simp+
  then show ?thesis
    using invariant_preserved[of demo] reachable_demo by blast
qed

text \<open>
  C2. On a reachable list and for \<open>0 \<le> i < length\<close>, \<^verbatim>\<open>get(i)\<close> returns
  the \<open>i\<close>-th value that iteration yields and leaves the list unchanged. It walks
  \<open>i\<close> steps forward from \<^verbatim>\<open>head\<close> when \<open>i < length div 2\<close> and
  \<open>length - i - 1\<close> steps backward from \<^verbatim>\<open>tail\<close> otherwise; either walk
  reaches the same node, the one holding that value, so the two branches agree.
\<close>

theorem get_returns_indexed_value:
  assumes "reachable s" and "0 \<le> i" and "i < dll_length s"
  shows "\<exists>vs a. iter s = Some (vs, s) \<and> get i s = (Inr (vs ! nat i), s) \<and>
           fst (get i s) =
             value_at (heap s)
               (if i < dll_length s div 2 then walk_next (heap s) (head s) (nat i)
                else walk_prev (heap s) (tail s) (nat (dll_length s - i - 1))) \<and>
           walk_next (heap s) (head s) (nat i) = Inr (Some a) \<and>
           walk_prev (heap s) (tail s) (nat (dll_length s - i - 1)) = Inr (Some a) \<and>
           node_value (heap s ! a) = vs ! nat i"
proof -
  from reachable_rep[OF assms(1)] obtain as where r: "rep s as" ..
  then have len: "dll_length s = int (length as)" by (simp add: rep_def)
  have n: "nat i < length as" using assms(2,3) len by simp
  have eq: "nat (dll_length s - i - 1) = length as - Suc (nat i)"
    using assms(2,3) len by simp
  have "iter s = Some (vals (heap s) as, s)" using r by (rule rep_iter)
  moreover have "get i s = (Inr (vals (heap s) as ! nat i), s)"
    using r assms(2,3) len by (simp add: rep_get)
  moreover have "fst (get i s) =
      value_at (heap s)
        (if i < dll_length s div 2 then walk_next (heap s) (head s) (nat i)
         else walk_prev (heap s) (tail s) (nat (dll_length s - i - 1)))"
    using assms(2,3) by (simp add: get_def)
  moreover have "walk_next (heap s) (head s) (nat i) = Inr (Some (as ! nat i))"
    using rep_walks(1)[OF r n] .
  moreover have "walk_prev (heap s) (tail s) (nat (dll_length s - i - 1)) = Inr (Some (as ! nat i))"
    using rep_walks(2)[OF r n] eq by simp
  moreover have "node_value (heap s ! (as ! nat i)) = vals (heap s) as ! nat i"
    using n by (simp add: vals_def)
  ultimately show ?thesis by blast
qed

theorem get_returns_indexed_value_witness:
  "reachable demo \<and> (0::int) \<le> 2 \<and> 2 < dll_length demo \<and> get 2 demo = (Inr 1, demo) \<and>
   walk_next (heap demo) (head demo) (nat 2) = Inr (Some 0) \<and>
   walk_prev (heap demo) (tail demo) (nat (dll_length demo - 2 - 1)) = Inr (Some 0)"
proof -
  have len: "dll_length demo = 5" by code_simp
  have it: "iter demo = Some ([-1, 0, 1, 2, 3], demo)" by code_simp
  have w: "walk_next (heap demo) (head demo) (nat 2) = Inr (Some 0)" by code_simp
  from get_returns_indexed_value[OF reachable_demo, of 2] len it w
  show ?thesis using reachable_demo by auto
qed

text \<open>The values the demonstration expects of \<^verbatim>\<open>get\<close>.\<close>

lemma demo_get:
  "fst (get 0 demo) = Inr (-1)" "fst (get 2 demo) = Inr 1" "fst (get 4 demo) = Inr 3"
  "fst (get 99 demo) = Inl (IndexError ''Index out of range'')"
  by code_simp+

text \<open>
  C3. Appending \<open>n\<close> values on one side of a reachable list and popping \<open>n\<close> times from
  that side returns the values in the reverse order of insertion. Popping from the
  opposite side returns first the values the list held before, nearest that side first,
  and then the appended values in the order of insertion; so \<open>n\<close> pops from the opposite
  side return the appended values in insertion order when the list was empty, and not
  when it held anything.
\<close>

theorem append_then_pop_order:
  assumes "reachable s" and "iter s = Some (ys, s)"
  shows "fst (pops_left (length xs) (appends_left xs s)) = map (\<lambda>x. Inr (Some x)) (rev xs) \<and>
         fst (pops_right (length xs) (appends_right xs s)) = map (\<lambda>x. Inr (Some x)) (rev xs) \<and>
         fst (pops_right (length ys + length xs) (appends_left xs s)) =
           map (\<lambda>x. Inr (Some x)) (rev ys @ xs) \<and>
         fst (pops_left (length ys + length xs) (appends_right xs s)) =
           map (\<lambda>x. Inr (Some x)) (ys @ xs)"
proof -
  from reachable_holds[OF assms(1)] obtain vs where "holds s vs" ..
  with assms(2) have h: "holds s ys" using holds_iter by fastforce
  have l: "holds (appends_left xs s) (rev xs @ ys)" using h by (rule holds_appends_left)
  have r: "holds (appends_right xs s) (ys @ xs)" using h by (rule holds_appends_right)
  have "fst (pops_left (length xs) (appends_left xs s)) = map (\<lambda>x. Inr (Some x)) (rev xs)"
    using holds_pops_left[of "appends_left xs s" "rev xs" ys] l by simp
  moreover
  have "fst (pops_right (length xs) (appends_right xs s)) = map (\<lambda>x. Inr (Some x)) (rev xs)"
    using holds_pops_right[of "appends_right xs s" ys xs] r by simp
  moreover
  have "fst (pops_right (length ys + length xs) (appends_left xs s)) =
          map (\<lambda>x. Inr (Some x)) (rev ys @ xs)"
    using holds_pops_right[of "appends_left xs s" "[]" "rev xs @ ys"] l
    by (simp add: add.commute)
  moreover
  have "fst (pops_left (length ys + length xs) (appends_right xs s)) =
          map (\<lambda>x. Inr (Some x)) (ys @ xs)"
    using holds_pops_left[of "appends_right xs s" "ys @ xs" "[]"] r by simp
  ultimately show ?thesis by blast
qed

theorem append_then_pop_order_witness:
  "reachable (append_right 9 init) \<and>
   iter (append_right 9 init) = Some ([9], append_right 9 init) \<and>
   fst (pops_left 2 (appends_left [1, 2] (append_right 9 init))) = [Inr (Some 2), Inr (Some 1)] \<and>
   fst (pops_right 2 (appends_right [1, 2] (append_right 9 init))) = [Inr (Some 2), Inr (Some 1)] \<and>
   fst (pops_right 3 (appends_left [1, 2] (append_right 9 init))) =
     [Inr (Some 9), Inr (Some 1), Inr (Some 2)] \<and>
   fst (pops_left 3 (appends_right [1, 2] (append_right 9 init))) =
     [Inr (Some 9), Inr (Some 1), Inr (Some 2)]"
proof -
  have r: "reachable (append_right 9 init)" by (intro reachable.intros)
  have i: "iter (append_right 9 init) = Some ([9], append_right 9 init)" by code_simp
  from append_then_pop_order[OF r i, of "[1, 2]"] r i show ?thesis
    by (simp add: numeral_2_eq_2 numeral_3_eq_3 del: pops_left.simps pops_right.simps)
qed

theorem opposite_side_counterexample:
  "fst (pops_right (length [1]) (appends_left [1] (append_right 9 init))) = [Inr (Some 9)] \<and>
   fst (pops_right (length [1]) (appends_left [1] (append_right 9 init)))
     \<noteq> map (\<lambda>x. Inr (Some x)) [1]"
  by code_simp

text \<open>
  C4. On a reachable list, \<^verbatim>\<open>append_left(v)\<close> followed by \<^verbatim>\<open>pop_left()\<close>
  returns \<open>v\<close> and leaves a list with the \<^verbatim>\<open>head\<close>, the \<^verbatim>\<open>tail\<close>,
  the \<^verbatim>\<open>length\<close> and the iterated values it had before; the same holds for
  \<^verbatim>\<open>append_right(v)\<close> followed by \<^verbatim>\<open>pop_right()\<close>.
\<close>

theorem append_pop_restores:
  assumes "reachable s"
  shows "\<exists>vs l r. iter s = Some (vs, s) \<and>
           pop_left (append_left v s) = (Inr (Some v), l) \<and>
           iter l = Some (vs, l) \<and> dll_length l = dll_length s \<and>
           head l = head s \<and> tail l = tail s \<and>
           pop_right (append_right v s) = (Inr (Some v), r) \<and>
           iter r = Some (vs, r) \<and> dll_length r = dll_length s \<and>
           head r = head s \<and> tail r = tail s"
proof -
  from reachable_rep[OF assms] obtain as where rs: "rep s as" ..
  let ?n = "length (heap s)"
  let ?vs = "vals (heap s) as"
  let ?l = "snd (pop_left (append_left v s))"
  let ?r = "snd (pop_right (append_right v s))"
  have al: "rep (append_left v s) (?n # as)" using rs by (rule rep_append_left)
  have ar: "rep (append_right v s) (as @ [?n])" using rs by (rule rep_append_right)
  have vl: "vals (heap (append_left v s)) (?n # as) = v # ?vs" using rs by (rule vals_append_left)
  have vr: "vals (heap (append_right v s)) (as @ [?n]) = ?vs @ [v]" using rs by (rule vals_append_right)
  have rl: "rep ?l as" using al by (rule rep_pop_left(2))
  have rr: "rep ?r as" using ar by (rule rep_pop_right(2))
  have "fst (pop_left (append_left v s)) = Inr (Some v)"
    using rep_pop_left(1)[OF al] vl by (simp add: vals_def)
  then have pl: "pop_left (append_left v s) = (Inr (Some v), ?l)"
    by (simp add: prod_eq_iff)
  have "fst (pop_right (append_right v s)) = Inr (Some v)"
    using rep_pop_right(1)[OF ar] vr by (simp add: vals_def)
  then have pr: "pop_right (append_right v s) = (Inr (Some v), ?r)"
    by (simp add: prod_eq_iff)
  have "vals (heap ?l) as = ?vs" using rep_pop_left(3)[OF al] vl by (simp add: vals_def)
  then have il: "iter ?l = Some (?vs, ?l)" using rep_iter[OF rl] by simp
  have "vals (heap ?r) as = ?vs" using rep_pop_right(3)[OF ar] vr by (simp add: vals_def)
  then have ir: "iter ?r = Some (?vs, ?r)" using rep_iter[OF rr] by simp
  have "dll_length ?l = dll_length s" "dll_length ?r = dll_length s"
    using rs rl rr by (simp_all add: rep_def)
  moreover have "head ?l = head s" "tail ?l = tail s" "head ?r = head s" "tail ?r = tail s"
    using rep_head_tail[OF rs] rep_head_tail[OF rl] rep_head_tail[OF rr] by simp_all
  ultimately show ?thesis
    using rep_iter[OF rs] pl pr il ir by blast
qed

theorem append_pop_restores_witness:
  "reachable demo \<and>
   fst (pop_left (append_left 7 demo)) = Inr (Some 7) \<and>
   map_option fst (iter (snd (pop_left (append_left 7 demo)))) = map_option fst (iter demo) \<and>
   fst (pop_right (append_right 7 demo)) = Inr (Some 7) \<and>
   map_option fst (iter (snd (pop_right (append_right 7 demo)))) = map_option fst (iter demo)"
  using append_pop_restores[OF reachable_demo, of 7] reachable_demo by auto

text \<open>
  C5. On a reachable list that is empty, \<^verbatim>\<open>pop_left()\<close> and
  \<^verbatim>\<open>pop_right()\<close> return \<^verbatim>\<open>None\<close>, raise nothing and leave the state
  exactly as it was, however often and in whatever order they are called.
\<close>

theorem pop_empty_returns_none:
  assumes "reachable s" and "dll_length s = 0"
  shows "pop_left s = (Inr None, s) \<and> pop_right s = (Inr None, s) \<and>
         pops_left n s = (replicate n (Inr None), s) \<and>
         pops_right n s = (replicate n (Inr None), s) \<and>
         (list_all (\<lambda>c. c = PopLeft \<or> c = PopRight) cs \<longrightarrow>
            run cs s = (replicate (length cs) (Inr None), s))"
proof -
  from reachable_rep[OF assms(1)] obtain as where r: "rep s as" ..
  with assms(2) have "as = []" by (simp add: rep_def)
  with r have h: "holds s []" by (auto simp: holds_def vals_def)
  have "run cs s = (replicate (length cs) (Inr None), s)"
    if "list_all (\<lambda>c. c = PopLeft \<or> c = PopRight) cs"
    using that holds_pop_empty[OF h] by (induction cs) auto
  then show ?thesis
    using holds_pop_empty[OF h] holds_pops_empty[OF h] by blast
qed

theorem pop_empty_returns_none_witness:
  "reachable (snd (pop_left (append_right 1 init))) \<and>
   dll_length (snd (pop_left (append_right 1 init))) = 0 \<and>
   pops_left 3 (snd (pop_left (append_right 1 init))) =
     ([Inr None, Inr None, Inr None], snd (pop_left (append_right 1 init))) \<and>
   run [PopLeft, PopRight, PopLeft] (snd (pop_left (append_right 1 init))) =
     ([Inr None, Inr None, Inr None], snd (pop_left (append_right 1 init)))"
proof -
  let ?s = "snd (pop_left (append_right 1 init))"
  have r: "reachable ?s" by (intro reachable.intros)
  have l: "dll_length ?s = 0" by code_simp
  from pop_empty_returns_none[OF r l, of 3 "[PopLeft, PopRight, PopLeft]"] r l
  show ?thesis by (simp add: numeral_3_eq_3)
qed

text \<open>
  C6. \<^verbatim>\<open>get(index)\<close> raises \<^verbatim>\<open>IndexError\<close> exactly when
  \<open>index < 0\<close> or \<open>index \<ge> length\<close>, in whatever state; an index out of range is
  never answered with a value, and the list is left unchanged. The exception carries the
  fixed message \<^verbatim>\<open>Index out of range\<close> and nothing else: the offending index is
  not part of it.
\<close>

theorem get_out_of_range:
  "(fst (get i s) = Inl (IndexError ''Index out of range'')) = (i < 0 \<or> dll_length s \<le> i) \<and>
   (\<exists>m. fst (get i s) = Inl (IndexError m)) = (i < 0 \<or> dll_length s \<le> i) \<and>
   (\<exists>v. fst (get i s) = Inr v) = (0 \<le> i \<and> i < dll_length s \<and> fst (get i s) \<noteq> Inl AssertionError) \<and>
   snd (get i s) = s"
proof -
  have wn: "walk_next h r n \<noteq> Inl (IndexError m)" for h r n m
    by (induction n arbitrary: r) (simp_all split: option.splits)
  have wp: "walk_prev h r n \<noteq> Inl (IndexError m)" for h r n m
    by (induction n arbitrary: r) (simp_all split: option.splits)
  have v: "value_at h (walk_next h r n) \<noteq> Inl (IndexError m)"
          "value_at h (walk_prev h r n) \<noteq> Inl (IndexError m)" for h r n m
    using wn[of h r n m] wp[of h r n m]
    by (auto simp: value_at_def split: sum.splits option.splits)
  have a: "(fst (get i s) = Inl (IndexError m)) =
           ((i < 0 \<or> dll_length s \<le> i) \<and> m = ''Index out of range'')" for m
    using v by (auto simp: get_def)
  have b: "(\<exists>v. fst (get i s) = Inr v) =
           (0 \<le> i \<and> i < dll_length s \<and> fst (get i s) \<noteq> Inl AssertionError)"
  proof (cases "fst (get i s)")
    case (Inl e)
    show ?thesis
    proof (cases e)
      case AssertionError
      with Inl show ?thesis by simp
    next
      case (IndexError m)
      with Inl a[of m] have "i < 0 \<or> dll_length s \<le> i" by simp
      with Inl show ?thesis by auto
    qed
  next
    case (Inr v)
    have "\<not> (i < 0 \<or> dll_length s \<le> i)"
    proof
      assume "i < 0 \<or> dll_length s \<le> i"
      then have "fst (get i s) = Inl (IndexError ''Index out of range'')"
        by (simp add: get_def)
      with Inr show False by simp
    qed
    with Inr show ?thesis by simp
  qed
  have c: "(\<exists>m. fst (get i s) = Inl (IndexError m)) = (i < 0 \<or> dll_length s \<le> i)"
    by (simp add: a)
  have d: "snd (get i s) = s" by (simp add: get_def)
  from a[of "''Index out of range''"] b c d show ?thesis by simp
qed

theorem get_out_of_range_witness:
  "fst (get 5 demo) = Inl (IndexError ''Index out of range'') \<and> snd (get 5 demo) = demo \<and>
   dll_length demo \<le> 5 \<and> fst (get 4 demo) = Inr 3"
proof -
  have "dll_length demo \<le> 5" "fst (get 4 demo) = Inr 3" by code_simp+
  with get_out_of_range[of 5 demo] show ?thesis by simp
qed

theorem index_error_counterexample:
  "fst (get 99 demo) = Inl (IndexError ''Index out of range'') \<and>
   fst (get (-1) demo) = Inl (IndexError ''Index out of range'') \<and>
   fst (get 99 demo) = fst (get (-1) demo)"
  by code_simp

text \<open>
  C7. After \<^verbatim>\<open>pop_left()\<close> on a reachable non-empty list, nothing of the list
  refers to the removed node any more: not \<^verbatim>\<open>head\<close>, not \<^verbatim>\<open>tail\<close>,
  not the \<^verbatim>\<open>next\<close> or \<^verbatim>\<open>prev\<close> of a remaining node. The removed node's
  \<^verbatim>\<open>prev\<close> is absent. Its \<^verbatim>\<open>next\<close> is not cleared: it still is what
  it was, the node that is now \<^verbatim>\<open>head\<close> (absent only if the list became
  empty). \<^verbatim>\<open>pop_right()\<close> is the mirror image: the removed node's
  \<^verbatim>\<open>next\<close> is absent and its \<^verbatim>\<open>prev\<close> still is the new \<^verbatim>\<open>tail\<close>.
\<close>

theorem popped_node_unreferenced:
  assumes "reachable s"
  shows "(head s = Some a \<longrightarrow>
            unreferenced a (snd (pop_left s)) \<and>
            node_prev (heap (snd (pop_left s)) ! a) = None \<and>
            node_next (heap (snd (pop_left s)) ! a) = head (snd (pop_left s))) \<and>
         (tail s = Some a \<longrightarrow>
            unreferenced a (snd (pop_right s)) \<and>
            node_next (heap (snd (pop_right s)) ! a) = None \<and>
            node_prev (heap (snd (pop_right s)) ! a) = tail (snd (pop_right s)))"
proof (intro conjI impI)
  from reachable_rep[OF assms] obtain as where r: "rep s as" ..
  {
    assume "head s = Some a"
    with rep_head_tail(1)[OF r] obtain bs where as: "as = a # bs"
      by (cases as) (auto split: if_splits)
    have r': "rep (snd (pop_left s)) bs" using r as rep_pop_left(2) by simp
    have "a \<notin> set bs" using r as by (simp add: rep_def)
    with r' show "unreferenced a (snd (pop_left s))" by (rule rep_unreferenced)
    show "node_prev (heap (snd (pop_left s)) ! a) = None"
      using r as rep_pop_left(5) by simp
    have "node_next (heap s ! a) = head (snd (pop_left s))"
      using r as rep_head_tail(1)[OF r'] by (cases bs) (simp_all add: rep_def)
    then show "node_next (heap (snd (pop_left s)) ! a) = head (snd (pop_left s))"
      using r as rep_pop_left(4)[of s a bs] by simp
  }
  {
    assume "tail s = Some a"
    with rep_head_tail(2)[OF r] obtain bs where as: "as = bs @ [a]"
      by (cases as rule: rev_cases) (auto split: if_splits)
    have r': "rep (snd (pop_right s)) bs" using r as rep_pop_right(2) by simp
    have "a \<notin> set bs" using r as by (simp add: rep_def)
    with r' show "unreferenced a (snd (pop_right s))" by (rule rep_unreferenced)
    show "node_next (heap (snd (pop_right s)) ! a) = None"
      using r as rep_pop_right(5) by simp
    have "node_prev (heap s ! a) = tail (snd (pop_right s))"
      using r as rep_head_tail(2)[OF r'] by (cases bs rule: rev_cases) (simp_all add: rep_def)
    then show "node_prev (heap (snd (pop_right s)) ! a) = tail (snd (pop_right s))"
      using r as rep_pop_right(4)[of s bs a] by simp
  }
qed

theorem popped_node_unreferenced_witness:
  "reachable demo \<and> head demo = Some 4 \<and> tail demo = Some 2 \<and>
   unreferenced 4 (snd (pop_left demo)) \<and>
   node_next (heap (snd (pop_left demo)) ! 4) = head (snd (pop_left demo)) \<and>
   unreferenced 2 (snd (pop_right demo)) \<and>
   node_prev (heap (snd (pop_right demo)) ! 2) = tail (snd (pop_right demo))"
proof -
  have h: "head demo = Some 4" and t: "tail demo = Some 2" by code_simp+
  from popped_node_unreferenced[OF reachable_demo, of 4] h
       popped_node_unreferenced[OF reachable_demo, of 2] t reachable_demo
  show ?thesis by simp
qed

theorem popped_node_keeps_next_counterexample:
  "head (append_right 2 (append_right 1 init)) = Some 0 \<and>
   fst (pop_left (append_right 2 (append_right 1 init))) = Inr (Some 1) \<and>
   head (snd (pop_left (append_right 2 (append_right 1 init)))) = Some 1 \<and>
   node_next (heap (snd (pop_left (append_right 2 (append_right 1 init)))) ! 0) = Some 1 \<and>
   tail (snd (pop_right (append_right 2 (append_right 1 init)))) = Some 0 \<and>
   node_prev (heap (snd (pop_right (append_right 2 (append_right 1 init)))) ! 1) = Some 0"
  by code_simp

text \<open>
  C8. For every sequence of \<^verbatim>\<open>append_left\<close>, \<^verbatim>\<open>append_right\<close>,
  \<^verbatim>\<open>pop_left\<close> and \<^verbatim>\<open>pop_right\<close> calls made on a fresh list of either
  class, the two classes return the same value from every call, and iterating them
  afterwards ends and yields the same values. The two lists are the same object graph;
  the tracked one has the counter besides.
\<close>

theorem variants_agree:
  "fst (ll_run cs ll_init) = fst (run cs init) \<and>
   snd (ll_run cs ll_init) = untracked (snd (run cs init)) \<and>
   (\<exists>vs. iter (snd (run cs init)) = Some (vs, snd (run cs init)) \<and>
         ll_iter (snd (ll_run cs ll_init)) = Some (vs, snd (ll_run cs ll_init)))"
proof -
  have eq: "ll_run cs ll_init = (fst (run cs init), untracked (snd (run cs init)))"
    using untracked_run[of cs init] by (simp add: untracked_init)
  have "reachable (snd (run cs init))" by (rule reachable_run) (rule reach_init)
  then obtain as where "rep (snd (run cs init)) as" using reachable_rep by blast
  then show ?thesis
    using eq rep_iter rep_ll_iter by simp
qed

theorem variants_agree_witness:
  "fst (ll_run [AppendRight 1, AppendRight 2, AppendLeft 0, PopRight, PopLeft, PopLeft, PopLeft] ll_init)
     = [Inr None, Inr None, Inr None, Inr (Some 2), Inr (Some 0), Inr (Some 1), Inr None] \<and>
   fst (run [AppendRight 1, AppendRight 2, AppendLeft 0, PopRight, PopLeft, PopLeft, PopLeft] init)
     = [Inr None, Inr None, Inr None, Inr (Some 2), Inr (Some 0), Inr (Some 1), Inr None]"
proof -
  have "fst (run [AppendRight 1, AppendRight 2, AppendLeft 0, PopRight, PopLeft, PopLeft, PopLeft] init)
     = [Inr None, Inr None, Inr None, Inr (Some 2), Inr (Some 0), Inr (Some 1), Inr None]"
    by code_simp
  with variants_agree[of "[AppendRight 1, AppendRight 2, AppendLeft 0, PopRight, PopLeft, PopLeft, PopLeft]"]
  show ?thesis by simp
qed

text \<open>
  C9. On a reachable list no \<^verbatim>\<open>assert\<close> fails: \<^verbatim>\<open>pop_left\<close>,
  \<^verbatim>\<open>pop_right\<close> and \<^verbatim>\<open>get\<close> never raise \<^verbatim>\<open>AssertionError\<close>.
  When \<^verbatim>\<open>length > 1\<close> the head has a \<^verbatim>\<open>next\<close> and the tail has a
  \<^verbatim>\<open>prev\<close>, and a walk of fewer than \<^verbatim>\<open>length\<close> steps, forward from
  \<^verbatim>\<open>head\<close> or backward from \<^verbatim>\<open>tail\<close>, meets a node at every step and
  ends on a node.
\<close>

theorem assertions_never_fail:
  assumes "reachable s"
  shows "fst (pop_left s) \<noteq> Inl AssertionError \<and>
         fst (pop_right s) \<noteq> Inl AssertionError \<and>
         fst (get i s) \<noteq> Inl AssertionError \<and>
         (1 < dll_length s \<longrightarrow>
            (\<exists>a b. head s = Some a \<and> node_next (heap s ! a) = Some b) \<and>
            (\<exists>a b. tail s = Some a \<and> node_prev (heap s ! a) = Some b)) \<and>
         (int n < dll_length s \<longrightarrow>
            (\<exists>a. walk_next (heap s) (head s) n = Inr (Some a)) \<and>
            (\<exists>a. walk_prev (heap s) (tail s) n = Inr (Some a)))"
proof -
  from reachable_rep[OF assms] obtain as where r: "rep s as" ..
  then have len: "dll_length s = int (length as)" by (simp add: rep_def)
  have nx: "seg node_next (heap s) (head s) as None"
    and pv: "seg node_prev (heap s) (tail s) (rev as) None"
    using r by (simp_all add: rep_def)
  have "fst (pop_left s) \<noteq> Inl AssertionError"
  proof (cases as)
    case Nil
    with r show ?thesis by (simp add: rep_pop_left_empty)
  next
    case (Cons a bs)
    with r rep_pop_left(1)[of s a bs] show ?thesis by simp
  qed
  moreover have "fst (pop_right s) \<noteq> Inl AssertionError"
  proof (cases as rule: rev_cases)
    case Nil
    with r show ?thesis by (simp add: rep_pop_right_empty)
  next
    case (snoc bs a)
    with r rep_pop_right(1)[of s bs a] show ?thesis by simp
  qed
  moreover have "fst (get i s) \<noteq> Inl AssertionError"
  proof (cases "0 \<le> i \<and> i < int (length as)")
    case True
    then show ?thesis using rep_get[OF r, of i] by simp
  next
    case False
    then show ?thesis using rep_get_out[OF r, of i] by auto
  qed
  moreover have "\<exists>a b. head s = Some a \<and> node_next (heap s ! a) = Some b"
    if "1 < dll_length s"
  proof -
    from that len obtain a b bs where "as = a # b # bs"
      by (cases as; cases "tl as") auto
    with nx show ?thesis by simp
  qed
  moreover have "\<exists>a b. tail s = Some a \<and> node_prev (heap s ! a) = Some b"
    if "1 < dll_length s"
  proof -
    from that len obtain a b bs where "rev as = a # b # bs"
      by (cases "rev as"; cases "tl (rev as)") auto
    with pv show ?thesis by simp
  qed
  moreover have "\<exists>a. walk_next (heap s) (head s) n = Inr (Some a)" if "int n < dll_length s"
    using walk_next_seg[OF nx, of n] that len by simp
  moreover have "\<exists>a. walk_prev (heap s) (tail s) n = Inr (Some a)" if "int n < dll_length s"
    using walk_prev_seg[OF pv, of n] that len by simp
  ultimately show ?thesis by blast
qed

theorem assertions_never_fail_witness:
  "reachable demo \<and> 1 < dll_length demo \<and> int 4 < dll_length demo \<and>
   fst (pop_left demo) = Inr (Some (-1)) \<and> fst (pop_right demo) = Inr (Some 3) \<and>
   fst (get 3 demo) = Inr 2 \<and>
   walk_next (heap demo) (head demo) 4 = Inr (Some 2) \<and>
   walk_prev (heap demo) (tail demo) 4 = Inr (Some 4)"
proof -
  have e: "1 < dll_length demo" "int 4 < dll_length demo"
    "fst (pop_left demo) = Inr (Some (-1))" "fst (pop_right demo) = Inr (Some 3)"
    "fst (get 3 demo) = Inr 2"
    "walk_next (heap demo) (head demo) 4 = Inr (Some 2)"
    "walk_prev (heap demo) (tail demo) 4 = Inr (Some 4)"
    by code_simp+
  from assertions_never_fail[OF reachable_demo, of 3 4] e reachable_demo
  show ?thesis by simp
qed

text \<open>
  C10. On a reachable list the chain of \<^verbatim>\<open>next\<close> from \<^verbatim>\<open>head\<close> is
  finite and without repetition: it has \<^verbatim>\<open>length\<close> nodes, a walk of \<open>n\<close> steps
  from \<^verbatim>\<open>head\<close> is at the \<open>n\<close>-th of them, and after exactly
  \<^verbatim>\<open>length\<close> steps it is at the absent reference. So \<^verbatim>\<open>__iter__\<close>
  ends, having yielded \<^verbatim>\<open>length\<close> values. The loops of \<^verbatim>\<open>get\<close> are
  bounded by their \<^verbatim>\<open>range\<close> and end whatever the state.
\<close>

theorem iteration_terminates:
  assumes "reachable s"
  shows "\<exists>as vs. nodes_from (heap s) (head s) = Some as \<and> distinct as \<and>
           int (length as) = dll_length s \<and>
           walk_next (heap s) (head s) (length as) = Inr None \<and>
           (\<forall>n < length as. walk_next (heap s) (head s) n = Inr (Some (as ! n))) \<and>
           iter s = Some (vs, s) \<and> int (length vs) = dll_length s"
proof -
  from reachable_rep[OF assms] obtain as where r: "rep s as" ..
  have nx: "seg node_next (heap s) (head s) as None" using r by (simp add: rep_def)
  have "nodes_from (heap s) (head s) = Some as" using r by (rule rep_nodes)
  moreover have "distinct as" "int (length as) = dll_length s"
    using r by (simp_all add: rep_def)
  moreover have "walk_next (heap s) (head s) (length as) = Inr None"
    using walk_next_seg[OF nx, of "length as"] by simp
  moreover have "\<forall>n < length as. walk_next (heap s) (head s) n = Inr (Some (as ! n))"
    using walk_next_seg[OF nx] by simp
  moreover have "iter s = Some (vals (heap s) as, s)" using r by (rule rep_iter)
  moreover have "int (length (vals (heap s) as)) = dll_length s"
    using r by (simp add: rep_def vals_def)
  ultimately show ?thesis by blast
qed

theorem iteration_terminates_witness:
  "reachable demo \<and> nodes_from (heap demo) (head demo) = Some [4, 3, 0, 1, 2] \<and>
   iter demo = Some ([-1, 0, 1, 2, 3], demo) \<and>
   walk_next (heap demo) (head demo) 5 = Inr None"
proof -
  have e: "nodes_from (heap demo) (head demo) = Some [4, 3, 0, 1, 2]"
    "iter demo = Some ([-1, 0, 1, 2, 3], demo)"
    by code_simp+
  have l5: "length [4, 3, 0, 1, 2::nat] = 5" by simp
  from iteration_terminates[OF reachable_demo] obtain as vs
    where a: "nodes_from (heap demo) (head demo) = Some as"
      and w: "walk_next (heap demo) (head demo) (length as) = Inr None"
    by blast
  have as: "as = [4, 3, 0, 1, 2]" using a e(1) by simp
  have "walk_next (heap demo) (head demo) 5 = Inr None"
    using w unfolding as l5 .
  with e reachable_demo show ?thesis by blast
qed

end
